theory Spec2Isabelle
  imports Complex_Main "HOL-Library.Word"
begin

section \<open>rt\_translator.py: the segmentation and pipeline core\<close>

text \<open>
  A shallow embedding of \<^verbatim>\<open>rt_translator.py\<close>. Conventions:
  \<^item> Python \<^verbatim>\<open>bytes\<close> are lists of 8-bit words.
  \<^item> Python \<^verbatim>\<open>float\<close> values (clock readings, energies) are real numbers: rounding of
    IEEE arithmetic is not modelled.
  \<^item> Python \<^verbatim>\<open>str\<close> values are \<open>string\<close>s whose characters are read as the code
    points U+0000 to U+00FF; a value that may be \<^verbatim>\<open>None\<close> is a \<open>string option\<close>.
  \<^item> Exceptions are values of type \<open>exn\<close>; a call that may raise returns \<open>exn + 'a\<close>.
  \<^item> Printed lines are values of type \<open>printed\<close>, one constructor for each format string.
\<close>

subsection \<open>Tunable parameters\<close>

definition SAMPLE_RATE :: int where "SAMPLE_RATE = 16000"
definition BLOCK_MS :: int where "BLOCK_MS = 30"
definition PAUSE_MS :: real where "PAUSE_MS = 800"
definition RMS_THRESH :: real where "RMS_THRESH = 9 / 1000"
definition PARTIAL_EVERY :: real where "PARTIAL_EVERY = 1200"
definition MIN_PARTIAL_CHARS :: nat where "MIN_PARTIAL_CHARS = 6"

subsection \<open>Python values\<close>

type_synonym bytes = "8 word list"

datatype exn = ValueError | AttributeError | Exception string

text \<open>\<^verbatim>\<open>x or ""\<close>: \<^verbatim>\<open>None\<close> and the empty string are both falsy.\<close>

fun or_empty :: "string option \<Rightarrow> string" where
  "or_empty None = []"
| "or_empty (Some t) = (if t = [] then [] else t)"

text \<open>
  \<^verbatim>\<open>str.isspace\<close> on the code points below 256: TAB, LF, VT, FF, CR, the separators
  U+001C to U+001F, SPACE, NEL (U+0085) and NBSP (U+00A0).
\<close>

definition is_space :: "char \<Rightarrow> bool" where
  "is_space ch = ((of_char ch :: nat) \<in> {9, 10, 11, 12, 13, 28, 29, 30, 31, 32, 133, 160})"

text \<open>\<^verbatim>\<open>str.strip()\<close>: drop the whitespace at both ends.\<close>

definition strip :: "string \<Rightarrow> string" where
  "strip t = rev (dropWhile is_space (rev (dropWhile is_space t)))"

subsection \<open>Energy detector\<close>

text \<open>
  \<^verbatim>\<open>np.frombuffer(frame_bytes, dtype=np.int16)\<close>: little-endian two's complement samples;
  numpy raises \<^verbatim>\<open>ValueError\<close> when the buffer size is not a multiple of the element size.
\<close>

definition int16 :: "8 word \<Rightarrow> 8 word \<Rightarrow> int" where
  "int16 lo hi = (let u = uint lo + 256 * uint hi in if u < 32768 then u else u - 65536)"

fun samples_of :: "bytes \<Rightarrow> int list" where
  "samples_of (lo # hi # rest) = int16 lo hi # samples_of rest"
| "samples_of _ = []"

definition frombuffer_int16 :: "bytes \<Rightarrow> exn + int list" where
  "frombuffer_int16 b = (if even (length b) then Inr (samples_of b) else Inl ValueError)"

definition mean :: "real list \<Rightarrow> real" where
  "mean xs = sum_list xs / real (length xs)"

definition rms_energy :: "bytes \<Rightarrow> exn + real" where
  "rms_energy frame_bytes =
     (case frombuffer_int16 frame_bytes of
        Inl e \<Rightarrow> Inl e
      | Inr raw \<Rightarrow>
          (let x = map (\<lambda>v. real_of_int v / 32768) raw
           in if length x = 0 then Inr 0
              else Inr (sqrt (mean (map (\<lambda>v. v * v) x)))))"

definition is_speech_energy :: "bytes \<Rightarrow> exn + bool" where
  "is_speech_energy frame_bytes =
     (case rms_energy frame_bytes of
        Inl e \<Rightarrow> Inl e
      | Inr r \<Rightarrow> Inr (r \<ge> RMS_THRESH))"



subsection \<open>Speech output queue (\<^verbatim>\<open>TTSWorker\<close>)\<close>

type_synonym job = "string \<times> string"

text \<open>\<^verbatim>\<open>_drain_queue\<close>: \<^verbatim>\<open>get_nowait\<close> until \<^verbatim>\<open>queue.Empty\<close>.\<close>

fun drain_queue :: "job list \<Rightarrow> job list" where
  "drain_queue [] = []"
| "drain_queue (j # q) = drain_queue q"

text \<open>\<^verbatim>\<open>say\<close>: the queue is passed in and returned; its head is the next job to be spoken.\<close>

definition say :: "job list \<Rightarrow> string option \<Rightarrow> string \<Rightarrow> int \<Rightarrow> job list" where
  "say q text lang_code priority =
     (let text' = strip (or_empty text)
      in if text' = [] then q
         else (let q' = (if priority = 1 then drain_queue q else q)
               in q' @ [(text', lang_code)]))"

subsection \<open>Translation adapter (Argos Translate)\<close>

text \<open>
  The installed languages, as \<^verbatim>\<open>argostranslate.translate\<close> reports them. Each language
  has a code and its \<^verbatim>\<open>get_translation\<close>, which is given the target's code and returns
  \<^verbatim>\<open>None\<close> or a translation; a translation is its \<^verbatim>\<open>translate\<close> method. Every call
  into the package may raise.
\<close>

type_synonym translation = "string \<Rightarrow> exn + string"

record language =
  code :: string
  get_translation :: "string \<Rightarrow> exn + translation option"

record argos =
  get_installed_languages :: "exn + language list"

datatype printed =
    MissingLanguages string string
  | ErrorArgos exn
  | AsrLine string string
  | TranslatedLine string string string

text \<open>
  The body of the \<^verbatim>\<open>try\<close> in \<^verbatim>\<open>translate_text\<close>: the returned text with the lines it
  printed, or the exception that left it. Calling \<^verbatim>\<open>translate\<close> on \<^verbatim>\<open>None\<close> raises
  \<^verbatim>\<open>AttributeError\<close>.
\<close>

definition translate_try :: "argos \<Rightarrow> string \<Rightarrow> string \<Rightarrow> string option \<Rightarrow> exn + (string \<times> printed list)" where
  "translate_try tr src_code tgt_code text =
     (case get_installed_languages tr of
        Inl e \<Rightarrow> Inl e
      | Inr langs \<Rightarrow>
          (let from_lang = find (\<lambda>l. code l = src_code) langs;
               to_lang = find (\<lambda>l. code l = tgt_code) langs
           in case (from_lang, to_lang) of
                (Some f, Some t) \<Rightarrow>
                  (case get_translation f (code t) of
                     Inl e \<Rightarrow> Inl e
                   | Inr None \<Rightarrow> Inl AttributeError
                   | Inr (Some translation) \<Rightarrow>
                       (case translation (or_empty text) of
                          Inl e \<Rightarrow> Inl e
                        | Inr out \<Rightarrow> Inr (out, [])))
              | _ \<Rightarrow> Inr (or_empty text, [MissingLanguages src_code tgt_code])))"

text \<open>\<^verbatim>\<open>except Exception as e\<close>: print the error, return the text.\<close>

definition translate_text :: "argos \<Rightarrow> string \<Rightarrow> string \<Rightarrow> string option \<Rightarrow> string \<times> printed list" where
  "translate_text tr src_code tgt_code text =
     (case translate_try tr src_code tgt_code text of
        Inl e \<Rightarrow> (or_empty text, [ErrorArgos e])
      | Inr r \<Rightarrow> r)"

subsection \<open>Slicing captured chunks into frames\<close>

text \<open>\<^verbatim>\<open>frame_bytes = int(2 * SAMPLE_RATE * BLOCK_MS / 1000)\<close>\<close>

definition frame_bytes :: nat where
  "frame_bytes = nat \<lfloor>real_of_int (2 * SAMPLE_RATE * BLOCK_MS) / 1000\<rfloor>"



subsection \<open>Recognizer sessions\<close>

text \<open>
  The streaming recognizer is an external collaborator. A session records the audio it
  has accepted; the acoustic model maps that audio to the \<^verbatim>\<open>"partial"\<close> field of
  \<^verbatim>\<open>PartialResult()\<close> and the \<^verbatim>\<open>"text"\<close> field of \<^verbatim>\<open>FinalResult()\<close>
  (\<open>None\<close> when the field is missing or null). The recognizer's calls are taken not to
  raise. \<open>seg\<close> numbers the sessions in the order \<^verbatim>\<open>KaldiRecognizer(model, SAMPLE_RATE)\<close>
  creates them: it identifies the session, and with it the segment being decoded.
\<close>

record session =
  seg :: nat
  heard :: "bytes list"

record acoustic_model =
  partial_field :: "bytes list \<Rightarrow> string option"
  text_field :: "bytes list \<Rightarrow> string option"

definition KaldiRecognizer :: "nat \<Rightarrow> session" where
  "KaldiRecognizer n = \<lparr>seg = n, heard = []\<rparr>"

definition AcceptWaveform :: "session \<Rightarrow> bytes \<Rightarrow> session" where
  "AcceptWaveform r frame = r\<lparr>heard := heard r @ [frame]\<rparr>"

definition PartialResult :: "acoustic_model \<Rightarrow> session \<Rightarrow> string option" where
  "PartialResult m r = partial_field m (heard r)"

definition FinalResult :: "acoustic_model \<Rightarrow> session \<Rightarrow> string option" where
  "FinalResult m r = text_field m (heard r)"

subsection \<open>The control loop of \<^verbatim>\<open>main\<close>\<close>

record config =
  model :: acoustic_model
  installed :: argos
  arg_src :: string
  arg_tgt :: string
  arg_partials :: bool

record state =
  rec :: session
  last_voice_time :: real
  got_voice :: bool
  partial_buf_text :: string
  partial_last_emit :: real
  tts_q :: "job list"

definition init_state :: state where
  "init_state = \<lparr>rec = KaldiRecognizer 0, last_voice_time = 0, got_voice = False,
                 partial_buf_text = [], partial_last_emit = 0, tts_q = []\<rparr>"

text \<open>
  One iteration of the inner loop reads: the frame, its classification by the energy
  detector, the clock (\<^verbatim>\<open>time.time()\<close>, in seconds), and how many queued jobs the
  playback thread has dequeued since the previous iteration.
\<close>

record tick =
  frame :: bytes
  speaking :: bool
  now :: real
  took :: nat

text \<open>
  What an iteration does that can be observed from outside the loop, in order:
  the session that accepted the frame, an utterance handed to translation and
  \<^verbatim>\<open>tts.say\<close> (session, final or partial, source text, translated text), the call of
  \<^verbatim>\<open>FinalResult\<close> on a session, the creation of a session, and a printed line.
\<close>

datatype event =
    Accept nat
  | Utter nat bool string string
  | TakeFinal nat
  | NewSession nat
  | Print printed

definition process_frame :: "config \<Rightarrow> state \<Rightarrow> tick \<Rightarrow> state \<times> event list" where
  "process_frame c s t =
     (let s0 = s\<lparr>tts_q := drop (took t) (tts_q s)\<rparr>;
          g = seg (rec s0);
          s1 = s0\<lparr>rec := AcceptWaveform (rec s0) (frame t)\<rparr>
      in if speaking t then
           (let s2 = s1\<lparr>got_voice := True, last_voice_time := now t\<rparr>
            in if arg_partials c \<and> (now t - partial_last_emit s2) * 1000 > PARTIAL_EVERY then
                 (let partial = strip (or_empty (PartialResult (model c) (rec s2)))
                  in if partial \<noteq> [] \<and> partial \<noteq> partial_buf_text s2
                        \<and> length partial \<ge> MIN_PARTIAL_CHARS then
                       (let (out, warns) =
                              translate_text (installed c) (arg_src c) (arg_tgt c) (Some partial)
                        in (s2\<lparr>partial_buf_text := partial,
                               tts_q := say (tts_q s2) (Some out) (arg_tgt c) 0,
                               partial_last_emit := now t\<rparr>,
                            [Accept g] @ map Print warns @ [Utter g False partial out]))
                     else (s2, [Accept g]))
               else (s2, [Accept g]))
         else if got_voice s1 \<and> (now t - last_voice_time s1) * 1000 \<ge> PAUSE_MS then
           (let final = strip (or_empty (FinalResult (model c) (rec s1)));
                s2 = s1\<lparr>got_voice := False, partial_buf_text := [], partial_last_emit := 0\<rparr>
            in if final \<noteq> [] then
                 (let (translated, warns) =
                        translate_text (installed c) (arg_src c) (arg_tgt c) (Some final)
                  in (s2\<lparr>tts_q := say (tts_q s2) (Some translated) (arg_tgt c) 1,
                         rec := KaldiRecognizer (Suc g)\<rparr>,
                      [Accept g, TakeFinal g, Print (AsrLine (arg_src c) final)]
                      @ map Print warns
                      @ [Print (TranslatedLine (arg_src c) (arg_tgt c) translated),
                         Utter g True final translated, NewSession (Suc g)]))
               else (s2\<lparr>rec := KaldiRecognizer (Suc g)\<rparr>,
                     [Accept g, TakeFinal g, NewSession (Suc g)]))
         else (s1, [Accept g]))"

definition after :: "config \<Rightarrow> state \<Rightarrow> tick \<Rightarrow> state" where
  "after c s t = fst (process_frame c s t)"

definition events :: "config \<Rightarrow> state \<Rightarrow> tick \<Rightarrow> event list" where
  "events c s t = snd (process_frame c s t)"

text \<open>A run of the loop over classified frames: the events of every iteration.\<close>

fun run_events :: "config \<Rightarrow> state \<Rightarrow> tick list \<Rightarrow> event list list" where
  "run_events c s [] = []"
| "run_events c s (t # ts) = events c s t # run_events c (after c s t) ts"

fun run_state :: "config \<Rightarrow> state \<Rightarrow> tick list \<Rightarrow> state" where
  "run_state c s [] = s"
| "run_state c s (t # ts) = run_state c (after c s t) ts"

text \<open>
  The loop as \<^verbatim>\<open>main\<close> runs it: each frame is classified by \<^verbatim>\<open>is_speech_energy\<close>, whose
  exception would leave the loop. Each frame comes with its clock reading and the
  playback thread's progress.
\<close>

fun loop_frames :: "config \<Rightarrow> state \<Rightarrow> (bytes \<times> real \<times> nat) list \<Rightarrow> exn + state" where
  "loop_frames c s [] = Inr s"
| "loop_frames c s ((fr, clock, n) # rest) =
     (case is_speech_energy fr of
        Inl e \<Rightarrow> Inl e
      | Inr sp \<Rightarrow>
          loop_frames c (after c s \<lparr>frame = fr, speaking = sp, now = clock, took = n\<rparr>) rest)"


subsection \<open>Observations on the events of an iteration\<close>

text \<open>
  The sessions that accepted a frame, the sessions \<^verbatim>\<open>FinalResult\<close> was called on, the
  sessions created, and the utterances emitted (session, final or partial, source text),
  each in the order of the events.
\<close>

fun accept_of :: "event \<Rightarrow> nat list" where
  "accept_of (Accept g) = [g]"
| "accept_of _ = []"

fun final_of :: "event \<Rightarrow> nat list" where
  "final_of (TakeFinal g) = [g]"
| "final_of _ = []"

fun created_of :: "event \<Rightarrow> nat list" where
  "created_of (NewSession g) = [g]"
| "created_of _ = []"

fun utterance_of :: "event \<Rightarrow> (nat \<times> bool \<times> string) list" where
  "utterance_of (Utter g fin source out) = [(g, fin, source)]"
| "utterance_of _ = []"

definition accepted :: "event list \<Rightarrow> nat list" where
  "accepted ev = concat (map accept_of ev)"

definition finals :: "event list \<Rightarrow> nat list" where
  "finals ev = concat (map final_of ev)"

definition created :: "event list \<Rightarrow> nat list" where
  "created ev = concat (map created_of ev)"

definition utterances :: "event list \<Rightarrow> (nat \<times> bool \<times> string) list" where
  "utterances ev = concat (map utterance_of ev)"

subsection \<open>The conditions of the branches of the loop body\<close>

text \<open>
  \<open>closes\<close> is the test of the silence branch, on the state before the iteration.
  \<open>candidate\<close> is the freshly extracted partial hypothesis and \<open>final_text\<close> the final
  hypothesis: both are read from the session after it has accepted the frame.
  \<open>emits_partial\<close> is the conjunction of the tests that guard the emission of a partial.
\<close>

definition closes :: "state \<Rightarrow> tick \<Rightarrow> bool" where
  "closes s t = (\<not> speaking t \<and> got_voice s \<and> (now t - last_voice_time s) * 1000 \<ge> PAUSE_MS)"

definition candidate :: "config \<Rightarrow> state \<Rightarrow> tick \<Rightarrow> string" where
  "candidate c s t = strip (or_empty (partial_field (model c) (heard (rec s) @ [frame t])))"

definition emits_partial :: "config \<Rightarrow> state \<Rightarrow> tick \<Rightarrow> bool" where
  "emits_partial c s t =
     (speaking t \<and> arg_partials c \<and> (now t - partial_last_emit s) * 1000 > PARTIAL_EVERY
      \<and> candidate c s t \<noteq> [] \<and> candidate c s t \<noteq> partial_buf_text s
      \<and> MIN_PARTIAL_CHARS \<le> length (candidate c s t))"

definition final_text :: "config \<Rightarrow> state \<Rightarrow> tick \<Rightarrow> string" where
  "final_text c s t = strip (or_empty (text_field (model c) (heard (rec s) @ [frame t])))"

subsection \<open>The spec's words for segmentation\<close>

text \<open>
  A pause completes at frame \<open>k\<close> when frame \<open>k\<close> is silent, some earlier frame \<open>j\<close> is
  speech, every frame between them is silent, the silence measured from the clock reading
  of frame \<open>j\<close> has reached \<open>PAUSE_MS\<close> at frame \<open>k\<close>, and it had not reached it at any
  frame in between. \<open>pause_completes_from\<close> is the same for a loop that starts in a state
  that may already have heard a voice.
\<close>

definition silence_ms :: "real \<Rightarrow> tick \<Rightarrow> real" where
  "silence_ms voice_time t = (now t - voice_time) * 1000"

definition pause_completes_at :: "tick list \<Rightarrow> nat \<Rightarrow> bool" where
  "pause_completes_at ts k =
     (\<not> speaking (ts ! k) \<and>
      (\<exists>j<k. speaking (ts ! j)
         \<and> (\<forall>i<k. j < i \<longrightarrow> \<not> speaking (ts ! i) \<and> silence_ms (now (ts ! j)) (ts ! i) < PAUSE_MS)
         \<and> silence_ms (now (ts ! j)) (ts ! k) \<ge> PAUSE_MS))"

definition pause_completes_from :: "state \<Rightarrow> tick list \<Rightarrow> nat \<Rightarrow> bool" where
  "pause_completes_from s ts k =
     (pause_completes_at ts k \<or>
      (got_voice s
       \<and> (\<forall>i<k. \<not> speaking (ts ! i) \<and> silence_ms (last_voice_time s) (ts ! i) < PAUSE_MS)
       \<and> \<not> speaking (ts ! k) \<and> silence_ms (last_voice_time s) (ts ! k) \<ge> PAUSE_MS))"

subsection \<open>The spec's words for the order of utterances\<close>

text \<open>
  The partial utterances among the events (session, source text). A list of utterances is
  in order when no utterance is followed by one of an earlier session, and a final
  utterance is followed only by utterances of later sessions.
\<close>

fun partial_of :: "event \<Rightarrow> (nat \<times> string) list" where
  "partial_of (Utter g fin source out) = (if fin then [] else [(g, source)])"
| "partial_of _ = []"

definition partials :: "event list \<Rightarrow> (nat \<times> string) list" where
  "partials ev = concat (map partial_of ev)"

fun in_order :: "(nat \<times> bool \<times> string) list \<Rightarrow> bool" where
  "in_order [] = True"
| "in_order ((g, fin, source) # us) =
     ((\<forall>(g', fin', source') \<in> set us. if fin then g < g' else g \<le> g') \<and> in_order us)"

text \<open>The number of calls of \<^verbatim>\<open>FinalResult\<close> in the first \<open>k\<close> iterations of a run.\<close>

definition finalizes_before :: "config \<Rightarrow> state \<Rightarrow> tick list \<Rightarrow> nat \<Rightarrow> nat" where
  "finalizes_before c s ts k = length (concat (map finals (take k (run_events c s ts))))"

subsection \<open>The spec's words for the translation adapter\<close>

text \<open>
  The requested pair is unavailable when a language is not installed, or when both are and
  the source language has no translation to the target. The engine raises when one of the
  three calls into it does; \<open>engine_error\<close> is the exception of the first that does.
\<close>

definition pair_unavailable :: "argos \<Rightarrow> string \<Rightarrow> string \<Rightarrow> bool" where
  "pair_unavailable tr sc tc =
     (case get_installed_languages tr of
        Inl e \<Rightarrow> False
      | Inr langs \<Rightarrow>
          (case (find (\<lambda>l. code l = sc) langs, find (\<lambda>l. code l = tc) langs) of
             (Some f, Some t) \<Rightarrow> (case get_translation f (code t) of Inr None \<Rightarrow> True | _ \<Rightarrow> False)
           | _ \<Rightarrow> True))"

definition engine_error :: "argos \<Rightarrow> string \<Rightarrow> string \<Rightarrow> string \<Rightarrow> exn option" where
  "engine_error tr sc tc txt =
     (case get_installed_languages tr of
        Inl e \<Rightarrow> Some e
      | Inr langs \<Rightarrow>
          (case (find (\<lambda>l. code l = sc) langs, find (\<lambda>l. code l = tc) langs) of
             (Some f, Some t) \<Rightarrow>
               (case get_translation f (code t) of
                  Inl e \<Rightarrow> Some e
                | Inr None \<Rightarrow> None
                | Inr (Some translation) \<Rightarrow>
                    (case translation txt of Inl e \<Rightarrow> Some e | Inr out \<Rightarrow> None))
           | _ \<Rightarrow> None))"

subsection \<open>Concrete inputs\<close>

text \<open>
  A recognizer that hears \<^verbatim>\<open>hola mundo\<close> in whatever it is fed, no installed languages
  (so the text passes through the translation adapter), partials enabled. \<open>demo_ticks\<close>:
  two speech frames, a silent frame one second after the last voice, a speech frame.
  \<open>scenario_ticks\<close>: ten speech frames, then thirty silent frames, 30 ms apart.
  \<open>boundary_tick\<close>: a speech frame exactly 1200 ms after the initial value of
  \<^verbatim>\<open>partial_last_emit\<close>.
\<close>

definition demo_model :: acoustic_model where
  "demo_model = \<lparr>partial_field = (\<lambda>audio. Some ''hola mundo''),
                 text_field = (\<lambda>audio. Some ''hola mundo '')\<rparr>"

definition demo_config :: config where
  "demo_config = \<lparr>model = demo_model, installed = \<lparr>get_installed_languages = Inr []\<rparr>,
                  arg_src = ''es'', arg_tgt = ''en'', arg_partials = True\<rparr>"

definition voiced :: bytes where "voiced = replicate 960 64"

definition silent :: bytes where "silent = replicate 960 0"

definition demo_ticks :: "tick list" where
  "demo_ticks =
     [\<lparr>frame = voiced, speaking = True, now = 2, took = 0\<rparr>,
      \<lparr>frame = voiced, speaking = True, now = 4, took = 0\<rparr>,
      \<lparr>frame = silent, speaking = False, now = 5, took = 0\<rparr>,
      \<lparr>frame = voiced, speaking = True, now = 7, took = 0\<rparr>]"

definition scenario_tick :: "nat \<Rightarrow> tick" where
  "scenario_tick i = \<lparr>frame = (if i < 10 then voiced else silent), speaking = (i < 10),
                        now = 100 + real i * (3 / 100), took = 0\<rparr>"

definition scenario_ticks :: "tick list" where
  "scenario_ticks = map scenario_tick [0..<40]"

definition boundary_tick :: tick where
  "boundary_tick = \<lparr>frame = voiced, speaking = True, now = 12 / 10, took = 0\<rparr>"

definition uno_dos :: "job list" where
  "uno_dos = [(''uno'', ''en''), (''dos'', ''en'')]"

text \<open>What the loop reads for a tick before it classifies the frame.\<close>

definition raw :: "tick \<Rightarrow> bytes \<times> real \<times> nat" where
  "raw t = (frame t, now t, took t)"

section \<open>Properties\<close>

subsection \<open>Auxiliary facts\<close>



lemma samples_zero: "samples_of (replicate (2 * n) 0) = replicate n 0"
  by (induction n) (auto simp: int16_def)


lemma rms_zero: "rms_energy (replicate (2 * n) 0) = Inr 0"
  by (simp add: rms_energy_def frombuffer_int16_def samples_zero mean_def sum_list_replicate)





lemma obs_Print [simp]:
  "accepted (map Print ws) = []" "finals (map Print ws) = []"
  "created (map Print ws) = []" "utterances (map Print ws) = []"
  by (induction ws) (simp_all add: accepted_def finals_def created_def utterances_def)

lemma obs_Nil [simp]:
  "accepted [] = []" "finals [] = []" "created [] = []" "utterances [] = []"
  by (simp_all add: accepted_def finals_def created_def utterances_def)

lemma obs_Cons [simp]:
  "accepted (e # ev) = accept_of e @ accepted ev"
  "finals (e # ev) = final_of e @ finals ev"
  "created (e # ev) = created_of e @ created ev"
  "utterances (e # ev) = utterance_of e @ utterances ev"
  by (simp_all add: accepted_def finals_def created_def utterances_def)

lemma obs_append [simp]:
  "accepted (ev @ ev') = accepted ev @ accepted ev'"
  "finals (ev @ ev') = finals ev @ finals ev'"
  "created (ev @ ev') = created ev @ created ev'"
  "utterances (ev @ ev') = utterances ev @ utterances ev'"
  by (simp_all add: accepted_def finals_def created_def utterances_def)

lemmas step_defs = events_def after_def process_frame_def Let_def closes_def
  AcceptWaveform_def KaldiRecognizer_def PartialResult_def FinalResult_def case_prod_beta

lemma step_accepted: "accepted (events c s t) = [seg (rec s)]"
  by (simp add: step_defs)

lemma step_finals: "finals (events c s t) = (if closes s t then [seg (rec s)] else [])"
  by (simp add: step_defs)

lemma step_created: "created (events c s t) = (if closes s t then [Suc (seg (rec s))] else [])"
  by (simp add: step_defs)

lemma step_got_voice: "got_voice (after c s t) = (speaking t \<or> (got_voice s \<and> \<not> closes s t))"
  by (auto simp add: step_defs)

lemma step_last_voice_time:
  "last_voice_time (after c s t) = (if speaking t then now t else last_voice_time s)"
  by (simp add: step_defs)

lemma step_rec:
  "rec (after c s t) = (if closes s t then \<lparr>seg = Suc (seg (rec s)), heard = []\<rparr>
                        else \<lparr>seg = seg (rec s), heard = heard (rec s) @ [frame t]\<rparr>)"
  by (simp add: step_defs)

lemma step_utterances:
  "utterances (events c s t) =
     (if emits_partial c s t then [(seg (rec s), False, candidate c s t)]
      else if closes s t \<and> final_text c s t \<noteq> [] then [(seg (rec s), True, final_text c s t)]
      else [])"
  by (simp add: step_defs emits_partial_def candidate_def final_text_def)

lemma step_partial_buf_text:
  "partial_buf_text (after c s t) =
     (if emits_partial c s t then candidate c s t
      else if closes s t then [] else partial_buf_text s)"
  by (simp add: step_defs emits_partial_def candidate_def)

lemma step_partial_last_emit:
  "partial_last_emit (after c s t) =
     (if emits_partial c s t then now t
      else if closes s t then 0 else partial_last_emit s)"
  by (simp add: step_defs emits_partial_def candidate_def)

lemma pause_completes_from_0: "pause_completes_from s (t # ts) 0 = closes s t"
  by (auto simp: pause_completes_from_def pause_completes_at_def closes_def silence_ms_def)

lemma pause_completes_from_Suc:
  "pause_completes_from s (t # ts) (Suc k) = pause_completes_from (after c s t) ts k"
  unfolding pause_completes_from_def pause_completes_at_def
  by (cases "speaking t"; cases "closes s t")
     (auto simp: step_got_voice step_last_voice_time closes_def silence_ms_def
                 Ex_less_Suc2 All_less_Suc2)

lemma finals_run_nth:
  "k < length ts \<Longrightarrow>
     length (finals (run_events c s ts ! k)) = (if pause_completes_from s ts k then 1 else 0)"
proof (induction ts arbitrary: s k)
  case Nil
  then show ?case by simp
next
  case (Cons t ts)
  show ?case
  proof (cases k)
    case 0
    then show ?thesis by (simp add: step_finals pause_completes_from_0)
  next
    case (Suc k')
    with Cons.prems have "k' < length ts" by simp
    from Cons.IH[OF this, of "after c s t"] Suc show ?thesis
      by (simp add: pause_completes_from_Suc[of s t ts k' c])
  qed
qed

lemma init_from: "pause_completes_from init_state ts k = pause_completes_at ts k"
  by (simp add: pause_completes_from_def init_state_def)

lemma pause_completes_once:
  assumes "pause_completes_at ts k" "pause_completes_at ts k'" "k < k'"
  shows "\<exists>j. k < j \<and> j < k' \<and> speaking (ts ! j)"
proof -
  from assms(1) obtain j where j: "j < k" "speaking (ts ! j)"
    "\<forall>i<k. j < i \<longrightarrow> \<not> speaking (ts ! i) \<and> silence_ms (now (ts ! j)) (ts ! i) < PAUSE_MS"
    "silence_ms (now (ts ! j)) (ts ! k) \<ge> PAUSE_MS" and nk: "\<not> speaking (ts ! k)"
    unfolding pause_completes_at_def by blast
  from assms(2) obtain j' where j': "j' < k'" "speaking (ts ! j')"
    "\<forall>i<k'. j' < i \<longrightarrow> \<not> speaking (ts ! i) \<and> silence_ms (now (ts ! j')) (ts ! i) < PAUSE_MS"
    unfolding pause_completes_at_def by blast
  have "k < j'"
  proof (rule ccontr)
    assume "\<not> k < j'"
    with j'(2) nk have lt: "j' < k" by (cases "j' = k") auto
    have "j' = j"
    proof (rule ccontr)
      assume "j' \<noteq> j"
      then consider "j' < j" | "j < j'" by linarith
      then show False
      proof cases
        case 1
        with j'(3) j(1,2) assms(3) show False by (meson less_trans)
      next
        case 2
        with j(3) lt j'(2) show False by blast
      qed
    qed
    with j'(3) assms(3) j(1,4) show False by (metis not_le)
  qed
  with j' show ?thesis by blast
qed

lemma partials_simps [simp]:
  "partials [] = []" "partials (e # ev) = partial_of e @ partials ev"
  "partials (ev @ ev') = partials ev @ partials ev'"
  by (simp_all add: partials_def)

lemma partials_Print [simp]: "partials (map Print ws) = []"
  by (induction ws) simp_all

lemma step_partials:
  "partials (events c s t) = (if emits_partial c s t then [(seg (rec s), candidate c s t)] else [])"
  by (simp add: step_defs emits_partial_def candidate_def)

lemma emits_not_closes: "emits_partial c s t \<Longrightarrow> \<not> closes s t"
  by (simp add: emits_partial_def closes_def)

lemma step_seg: "seg (rec (after c s t)) = (if closes s t then Suc (seg (rec s)) else seg (rec s))"
  by (simp add: step_rec)

lemma concat_run_Cons [simp]:
  "concat (run_events c s (t # ts)) = events c s t @ concat (run_events c (after c s t) ts)"
  by simp

lemma utterances_ge:
  "(g, fin, source) \<in> set (utterances (concat (run_events c s ts))) \<Longrightarrow> seg (rec s) \<le> g"
proof (induction ts arbitrary: s)
  case Nil
  then show ?case by simp
next
  case (Cons t ts)
  from Cons.prems consider
    (here) "(g, fin, source) \<in> set (utterances (events c s t))"
  | (later) "(g, fin, source) \<in> set (utterances (concat (run_events c (after c s t) ts)))"
    by auto
  then show ?case
  proof cases
    case here
    then show ?thesis by (auto simp: step_utterances split: if_splits)
  next
    case later
    from Cons.IH[OF later] show ?thesis by (simp add: step_seg split: if_splits)
  qed
qed

lemma partials_ge:
  "(g, source) \<in> set (partials (concat (run_events c s ts))) \<Longrightarrow> seg (rec s) \<le> g"
proof (induction ts arbitrary: s)
  case Nil
  then show ?case by simp
next
  case (Cons t ts)
  from Cons.prems consider
    (here) "(g, source) \<in> set (partials (events c s t))"
  | (later) "(g, source) \<in> set (partials (concat (run_events c (after c s t) ts)))"
    by auto
  then show ?case
  proof cases
    case here
    then show ?thesis by (auto simp: step_partials split: if_splits)
  next
    case later
    from Cons.IH[OF later] show ?thesis by (simp add: step_seg split: if_splits)
  qed
qed

lemma in_order_run: "in_order (utterances (concat (run_events c s ts)))"
proof (induction ts arbitrary: s)
  case Nil
  show ?case by simp
next
  case (Cons t ts)
  let ?rest = "utterances (concat (run_events c (after c s t) ts))"
  have rest: "in_order ?rest" by (rule Cons.IH)
  have ge: "\<And>g fin source. (g, fin, source) \<in> set ?rest \<Longrightarrow> seg (rec (after c s t)) \<le> g"
    by (rule utterances_ge)
  show ?case
  proof (cases "emits_partial c s t")
    case True
    with ge rest show ?thesis
      by (auto simp: step_utterances step_seg emits_not_closes)
  next
    case False
    with ge rest show ?thesis
      by (fastforce simp: step_utterances step_seg)
  qed
qed

lemma distinct_adj_run:
  "distinct_adj ((seg (rec s), partial_buf_text s) # partials (concat (run_events c s ts)))"
proof (induction ts arbitrary: s)
  case Nil
  show ?case by simp
next
  case (Cons t ts)
  let ?rest = "partials (concat (run_events c (after c s t) ts))"
  have IH: "distinct_adj ((seg (rec (after c s t)), partial_buf_text (after c s t)) # ?rest)"
    by (rule Cons.IH)
  show ?case
  proof (cases "emits_partial c s t")
    case True
    then have nc: "\<not> closes s t" by (rule emits_not_closes)
    from IH True nc have "distinct_adj ((seg (rec s), candidate c s t) # ?rest)"
      by (simp add: step_seg step_partial_buf_text)
    moreover from True have "partial_buf_text s \<noteq> candidate c s t"
      by (auto simp: emits_partial_def)
    ultimately show ?thesis using True by (simp add: step_partials)
  next
    case False
    show ?thesis
    proof (cases "closes s t")
      case True
      have "?rest = [] \<or> fst (hd ?rest) \<noteq> seg (rec s)"
      proof (cases ?rest)
        case Nil
        then show ?thesis by simp
      next
        case (Cons p ps)
        then have "(fst p, snd p) \<in> set ?rest" by simp
        from partials_ge[OF this] True Cons show ?thesis by (simp add: step_seg)
      qed
      moreover from IH have "distinct_adj ?rest" by (rule distinct_adj_ConsD)
      ultimately show ?thesis using False
        by (cases ?rest) (auto simp: step_partials)
    next
      case nc: False
      with False IH show ?thesis
        by (simp add: step_partials step_seg step_partial_buf_text)
    qed
  qed
qed

lemma partials_min_length:
  "(g, source) \<in> set (partials (concat (run_events c s ts))) \<Longrightarrow> MIN_PARTIAL_CHARS \<le> length source"
proof (induction ts arbitrary: s)
  case Nil
  then show ?case by simp
next
  case (Cons t ts)
  from Cons.prems consider
    (here) "(g, source) \<in> set (partials (events c s t))"
  | (later) "(g, source) \<in> set (partials (concat (run_events c (after c s t) ts)))"
    by auto
  then show ?case
  proof cases
    case here
    then show ?thesis by (auto simp: step_partials emits_partial_def split: if_splits)
  next
    case later
    from Cons.IH[OF later] show ?thesis .
  qed
qed

lemma run_events_length [simp]: "length (run_events c s ts) = length ts"
  by (induction ts arbitrary: s) simp_all

lemma run_events_nth:
  "k < length ts \<Longrightarrow> run_events c s ts ! k = events c (run_state c s (take k ts)) (ts ! k)"
proof (induction ts arbitrary: s k)
  case Nil
  then show ?case by simp
next
  case (Cons t ts)
  then show ?case by (cases k) simp_all
qed

lemma run_state_take_Suc:
  "k < length ts \<Longrightarrow> run_state c s (take (Suc k) ts) = after c (run_state c s (take k ts)) (ts ! k)"
proof (induction ts arbitrary: s k)
  case Nil
  then show ?case by simp
next
  case (Cons t ts)
  then show ?case by (cases k) simp_all
qed

lemma seg_run_state:
  "seg (rec (run_state c s (take k ts))) = seg (rec s) + finalizes_before c s ts k"
proof (induction ts arbitrary: s k)
  case Nil
  show ?case by (simp add: finalizes_before_def)
next
  case (Cons t ts)
  show ?case
  proof (cases k)
    case 0
    then show ?thesis by (simp add: finalizes_before_def)
  next
    case (Suc k')
    have "seg (rec (run_state c (after c s t) (take k' ts)))
            = seg (rec (after c s t)) + finalizes_before c (after c s t) ts k'"
      by (rule Cons.IH)
    with Suc show ?thesis
      by (simp add: finalizes_before_def step_seg step_finals)
  qed
qed

lemma hd_events: "hd (events c s t) = Accept (seg (rec s))"
  by (simp add: step_defs)

lemma last_events: "closes s t \<Longrightarrow> last (events c s t) = NewSession (Suc (seg (rec s)))"
  by (simp add: step_defs)



text \<open>The results of \<^verbatim>\<open>translate_text\<close>, case by case.\<close>

lemma translate_missing:
  "get_installed_languages tr = Inr langs \<Longrightarrow>
   find (\<lambda>l. code l = sc) langs = None \<or> find (\<lambda>l. code l = tc) langs = None \<Longrightarrow>
   translate_text tr sc tc (Some txt) = (txt, [MissingLanguages sc tc])"
  by (auto simp: translate_text_def translate_try_def Let_def split: option.splits)

lemma translate_no_pair:
  "get_installed_languages tr = Inr langs \<Longrightarrow>
   find (\<lambda>l. code l = sc) langs = Some f \<Longrightarrow> find (\<lambda>l. code l = tc) langs = Some t \<Longrightarrow>
   get_translation f (code t) = Inr None \<Longrightarrow>
   translate_text tr sc tc (Some txt) = (txt, [ErrorArgos AttributeError])"
  by (simp add: translate_text_def translate_try_def Let_def)

lemma translate_raises:
  "translate_try tr sc tc (Some txt) = Inl e \<Longrightarrow>
   translate_text tr sc tc (Some txt) = (txt, [ErrorArgos e])"
  by (simp add: translate_text_def)

lemma translate_ok:
  "get_installed_languages tr = Inr langs \<Longrightarrow>
   find (\<lambda>l. code l = sc) langs = Some f \<Longrightarrow> find (\<lambda>l. code l = tc) langs = Some t \<Longrightarrow>
   get_translation f (code t) = Inr (Some translation) \<Longrightarrow> translation txt = Inr out \<Longrightarrow>
   translate_text tr sc tc (Some txt) = (out, [])"
  by (simp add: translate_text_def translate_try_def Let_def)

subsection \<open>Translation adapter\<close>

text \<open>
  Claim C5. For every text, when the requested pair is unavailable or a call into the
  engine raises, \<^verbatim>\<open>translate_text\<close> returns the text unchanged and prints exactly one
  warning; otherwise it prints none. It returns a value in every case: no exception of the
  engine leaves it.
\<close>

theorem translate_text_fail_soft:
  "(pair_unavailable tr sc tc \<or> engine_error tr sc tc txt \<noteq> None \<longrightarrow>
      fst (translate_text tr sc tc (Some txt)) = txt
      \<and> length (snd (translate_text tr sc tc (Some txt))) = 1)
   \<and> (\<not> pair_unavailable tr sc tc \<and> engine_error tr sc tc txt = None \<longrightarrow>
      snd (translate_text tr sc tc (Some txt)) = [])"
  by (auto simp: pair_unavailable_def engine_error_def translate_text_def translate_try_def Let_def
      split: sum.splits option.splits)

text \<open>No language installed: the text comes back with the warning about missing languages.\<close>

theorem translate_text_fail_soft_witness:
  "pair_unavailable (installed demo_config) ''es'' ''en''
   \<and> translate_text (installed demo_config) ''es'' ''en'' (Some ''hola'')
       = (''hola'', [MissingLanguages ''es'' ''en''])"
  using translate_text_fail_soft[of "installed demo_config" "''es''" "''en''" "''hola''"]
  by (simp add: pair_unavailable_def demo_config_def translate_text_def translate_try_def)

subsection \<open>Speech output queue\<close>

text \<open>
  Claim C9. When the text is \<^verbatim>\<open>None\<close>, empty or only whitespace, \<^verbatim>\<open>say\<close> leaves the queue
  as it is, whatever the priority: nothing is enqueued and nothing is drained.
\<close>

theorem say_blank_leaves_queue:
  "strip (or_empty text) = [] \<Longrightarrow> say q text lang_code priority = q"
  by (simp add: say_def)

text \<open>A space and a tab, with priority 1, on a queue of two jobs.\<close>

theorem say_blank_leaves_queue_witness:
  "strip (or_empty (Some [CHR 0x20, CHR 0x09])) = [] \<and> say uno_dos (Some [CHR 0x20, CHR 0x09]) ''en'' 1 = uno_dos"
proof -
  have h: "strip (or_empty (Some [CHR 0x20, CHR 0x09])) = []"
    by (simp add: strip_def is_space_def)
  from h say_blank_leaves_queue[OF h] show ?thesis by simp
qed




lemma samples_half: "samples_of [0, 64] = [16384]"
  by (simp add: int16_def)

lemma is_speech_zero: "is_speech_energy (replicate (2 * n) 0) = Inr False"
  by (simp add: is_speech_energy_def rms_zero RMS_THRESH_def)

subsection \<open>Energy detector\<close>






lemma scenario_len: "length scenario_ticks = 40"
  by (simp add: scenario_ticks_def)

lemma scenario_nth: "i < 40 \<Longrightarrow> scenario_ticks ! i = scenario_tick i"
  unfolding scenario_ticks_def by (subst nth_map) (simp_all del: upt_rec_numeral)

subsection \<open>Segmentation\<close>

text \<open>
  Claim C1. In a run of the loop from its initial state over any sequence of classified
  frames, the iteration for frame \<open>k\<close> calls \<^verbatim>\<open>FinalResult\<close> exactly once if a pause
  completes at frame \<open>k\<close>, and not at all otherwise: a segment is finalized if and only
  if a contiguous run of silent frames follows a speech frame and the silence, measured
  from that speech frame's clock reading, reaches \<open>PAUSE_MS\<close>, at the first frame where it
  does. Two frames at which a pause completes are separated by a speech frame, so a
  silence run finalizes at most once.
\<close>

theorem finalize_iff_pause_completes:
  assumes "k < length ts"
  shows "length (finals (run_events c init_state ts ! k)) = (if pause_completes_at ts k then 1 else 0)
       \<and> (\<forall>k'. k < k' \<and> pause_completes_at ts k \<and> pause_completes_at ts k'
              \<longrightarrow> (\<exists>j. k < j \<and> j < k' \<and> speaking (ts ! j)))"
  using finals_run_nth[OF assms, of c init_state] pause_completes_once[of ts k]
  by (simp add: init_from)

lemma scenario_36: "pause_completes_at scenario_ticks 36"
proof -
  have "\<forall>i<36. 9 < i \<longrightarrow> \<not> speaking (scenario_ticks ! i)
          \<and> silence_ms (now (scenario_ticks ! 9)) (scenario_ticks ! i) < PAUSE_MS"
    by (auto simp: scenario_nth scenario_tick_def silence_ms_def PAUSE_MS_def)
  moreover have "speaking (scenario_ticks ! 9)" "\<not> speaking (scenario_ticks ! 36)"
    "silence_ms (now (scenario_ticks ! 9)) (scenario_ticks ! 36) \<ge> PAUSE_MS"
    by (simp_all add: scenario_nth scenario_tick_def silence_ms_def PAUSE_MS_def)
  ultimately show ?thesis
    unfolding pause_completes_at_def by (intro conjI exI[of _ 9]) simp_all
qed

lemma scenario_only_36:
  assumes "k < 40" "pause_completes_at scenario_ticks k"
  shows "k = 36"
proof -
  from assms(2) obtain j where j: "j < k" "speaking (scenario_ticks ! j)"
    "\<forall>i<k. j < i \<longrightarrow> \<not> speaking (scenario_ticks ! i)
        \<and> silence_ms (now (scenario_ticks ! j)) (scenario_ticks ! i) < PAUSE_MS"
    "silence_ms (now (scenario_ticks ! j)) (scenario_ticks ! k) \<ge> PAUSE_MS"
    and nk: "\<not> speaking (scenario_ticks ! k)"
    unfolding pause_completes_at_def by blast
  from j(1) assms(1) have j40: "j < 40" by simp
  from j(2) j40 have j10: "j < 10" by (simp add: scenario_nth scenario_tick_def)
  from nk assms(1) have k10: "10 \<le> k" by (simp add: scenario_nth scenario_tick_def)
  have "j = 9"
  proof (rule ccontr)
    assume "j \<noteq> 9"
    with j10 have "j < 9" by simp
    with j(3) k10 have "\<not> speaking (scenario_ticks ! 9)" by simp
    then show False by (simp add: scenario_nth scenario_tick_def)
  qed
  with j(4) assms(1) have "36 \<le> k"
    by (simp add: scenario_nth scenario_tick_def silence_ms_def PAUSE_MS_def)
  moreover have "\<not> 36 < k"
  proof
    assume "36 < k"
    with j(3) \<open>j = 9\<close> have "silence_ms (now (scenario_ticks ! 9)) (scenario_ticks ! 36) < PAUSE_MS"
      by simp
    then show False
      by (simp add: scenario_nth scenario_tick_def silence_ms_def PAUSE_MS_def)
  qed
  ultimately show ?thesis by simp
qed

text \<open>
  Ten speech frames, then silent frames 30 ms apart: the silence reaches 800 ms at the
  27th silent frame (index 36, 810 ms), which finalizes; the frame before does not.
\<close>

theorem finalize_iff_pause_completes_witness:
  "36 < length scenario_ticks \<and> pause_completes_at scenario_ticks 36
   \<and> length (finals (run_events demo_config init_state scenario_ticks ! 36)) = 1
   \<and> \<not> pause_completes_at scenario_ticks 35
   \<and> length (finals (run_events demo_config init_state scenario_ticks ! 35)) = 0"
proof -
  have len: "length scenario_ticks = 40" by (rule scenario_len)
  have n35: "\<not> pause_completes_at scenario_ticks 35"
    using scenario_only_36[of 35] by auto
  from finalize_iff_pause_completes[of 36 scenario_ticks demo_config]
       finalize_iff_pause_completes[of 35 scenario_ticks demo_config]
       len scenario_36 n35
  show ?thesis by simp
qed

text \<open>In that scenario frame 36 is the only one that finalizes.\<close>

lemma scenario_single_finalize:
  assumes "k < 40"
  shows "length (finals (run_events c init_state scenario_ticks ! k)) = (if k = 36 then 1 else 0)"
proof -
  have "pause_completes_at scenario_ticks k \<longleftrightarrow> k = 36"
    using scenario_36 scenario_only_36[OF assms] by blast
  with finals_run_nth[of k scenario_ticks c init_state] assms show ?thesis
    by (simp add: init_from scenario_len)
qed

lemmas demo_defs = demo_ticks_def demo_config_def demo_model_def init_state_def
  KaldiRecognizer_def strip_def is_space_def PARTIAL_EVERY_def PAUSE_MS_def MIN_PARTIAL_CHARS_def
  boundary_tick_def

lemmas step_simps = step_utterances step_partials step_finals step_created step_accepted
  step_rec step_got_voice step_last_voice_time step_partial_buf_text step_partial_last_emit
  emits_partial_def closes_def candidate_def final_text_def

lemma demo_utterances:
  "utterances (concat (run_events demo_config init_state demo_ticks))
     = [(0, False, ''hola mundo''), (0, True, ''hola mundo''), (1, False, ''hola mundo'')]"
  by (simp add: demo_defs step_simps)

lemma demo_partials:
  "partials (concat (run_events demo_config init_state demo_ticks))
     = [(0, ''hola mundo''), (1, ''hola mundo'')]"
  by (simp add: demo_defs step_simps)


subsection \<open>Partial utterances\<close>



subsection \<open>Recognizer sessions\<close>

text \<open>
  Claim C4. In a run of the loop from its initial state, frame \<open>k\<close> is fed to the session
  whose number is the number of finalizes before frame \<open>k\<close>, and feeding is the first thing
  the iteration does. An iteration either neither calls \<^verbatim>\<open>FinalResult\<close> nor creates a
  session, or it calls \<^verbatim>\<open>FinalResult\<close> once, on the session it fed, and creates exactly
  one session, the next one: this is the last thing the iteration does, and the loop's
  recognizer is then that session, which has heard nothing.
\<close>

theorem session_replaced_once_per_finalize:
  assumes "k < length ts"
  shows "accepted (run_events c init_state ts ! k) = [finalizes_before c init_state ts k]
       \<and> hd (run_events c init_state ts ! k) = Accept (finalizes_before c init_state ts k)
       \<and> (finals (run_events c init_state ts ! k) = []
            \<and> created (run_events c init_state ts ! k) = []
          \<or> finals (run_events c init_state ts ! k) = [finalizes_before c init_state ts k]
            \<and> created (run_events c init_state ts ! k) = [Suc (finalizes_before c init_state ts k)]
            \<and> last (run_events c init_state ts ! k) = NewSession (Suc (finalizes_before c init_state ts k))
            \<and> rec (run_state c init_state (take (Suc k) ts))
                = KaldiRecognizer (Suc (finalizes_before c init_state ts k)))"
proof -
  let ?S = "run_state c init_state (take k ts)"
  have seg: "seg (rec ?S) = finalizes_before c init_state ts k"
    by (simp add: seg_run_state init_state_def KaldiRecognizer_def)
  have ev: "run_events c init_state ts ! k = events c ?S (ts ! k)"
    using assms by (rule run_events_nth)
  have st: "run_state c init_state (take (Suc k) ts) = after c ?S (ts ! k)"
    using assms by (rule run_state_take_Suc)
  show ?thesis
    unfolding ev st
    by (simp add: step_accepted step_finals step_created hd_events last_events step_rec
        KaldiRecognizer_def seg)
qed

text \<open>
  In \<open>demo_ticks\<close> frame 2 finalizes session 0 and creates session 1, which frame 3 is
  fed to.
\<close>

theorem session_replaced_once_per_finalize_witness:
  "2 < length demo_ticks
   \<and> accepted (run_events demo_config init_state demo_ticks ! 2) = [0]
   \<and> finals (run_events demo_config init_state demo_ticks ! 2) = [0]
   \<and> created (run_events demo_config init_state demo_ticks ! 2) = [1]
   \<and> last (run_events demo_config init_state demo_ticks ! 2) = NewSession 1
   \<and> rec (run_state demo_config init_state (take 3 demo_ticks)) = KaldiRecognizer 1
   \<and> accepted (run_events demo_config init_state demo_ticks ! 3) = [1]"
proof -
  have len: "2 < length demo_ticks" by (simp add: demo_ticks_def)
  have a2: "accepted (run_events demo_config init_state demo_ticks ! 2) = [0]"
    and f2: "finals (run_events demo_config init_state demo_ticks ! 2) = [0]"
    and a3: "accepted (run_events demo_config init_state demo_ticks ! 3) = [1]"
    by (simp_all add: demo_defs step_simps)
  from session_replaced_once_per_finalize[OF len, of demo_config] a2 f2
  have "created (run_events demo_config init_state demo_ticks ! 2) = [1]
      \<and> last (run_events demo_config init_state demo_ticks ! 2) = NewSession 1
      \<and> rec (run_state demo_config init_state (take 3 demo_ticks)) = KaldiRecognizer 1"
    by (simp add: eval_nat_numeral)
  with len a2 f2 a3 show ?thesis by simp
qed

text \<open>
  Finalizing clears \<^verbatim>\<open>partial_buf_text\<close>, so the first partial of the next segment is
  emitted even when its text equals the partial emitted just before it.
\<close>

theorem partial_repeated_after_finalize:
  "map snd (partials (concat (run_events demo_config init_state demo_ticks)))
     = [''hola mundo'', ''hola mundo'']"
  by (simp add: demo_partials)

text \<open>
  Claim C6, amended. In every run of the loop from its initial state, two successive
  partial utterances of the same recognizer session (with no finalize between them) have
  different texts, and every partial utterance has at least \<open>MIN_PARTIAL_CHARS\<close>
  characters.
\<close>

theorem partials_differ_within_segment:
  "distinct_adj (partials (concat (run_events c init_state ts)))
   \<and> (\<forall>(g, source) \<in> set (partials (concat (run_events c init_state ts))).
         MIN_PARTIAL_CHARS \<le> length source)"
  using distinct_adj_run[of init_state c ts, THEN distinct_adj_ConsD] partials_min_length[of _ _ c init_state ts]
  by auto

text \<open>
  In \<open>demo_ticks\<close> the second speech frame yields the text already emitted and is
  suppressed; the partials emitted belong to sessions 0 and 1.
\<close>

theorem partials_differ_within_segment_witness:
  "partials (concat (run_events demo_config init_state demo_ticks))
     = [(0, ''hola mundo''), (1, ''hola mundo'')]
   \<and> distinct_adj [(0 :: nat, ''hola mundo''), (1, ''hola mundo'')]
   \<and> MIN_PARTIAL_CHARS \<le> length ''hola mundo''"
  using partials_differ_within_segment[of demo_config demo_ticks]
  by (simp add: demo_partials)

subsection \<open>Order of utterances\<close>

text \<open>
  Claim C7. In every run of the loop from its initial state, the utterances handed to
  \<^verbatim>\<open>tts.say\<close> are in the order of their sessions, and after the final utterance of a
  session every later utterance, partial or final, belongs to a later session.
\<close>

theorem utterances_in_segment_order:
  "in_order (utterances (concat (run_events c init_state ts)))"
  by (rule in_order_run)

text \<open>The utterances of \<open>demo_ticks\<close>: a partial and the final of session 0, then a partial of session 1.\<close>

theorem utterances_in_segment_order_witness:
  "utterances (concat (run_events demo_config init_state demo_ticks))
     = [(0, False, ''hola mundo''), (0, True, ''hola mundo''), (1, False, ''hola mundo'')]
   \<and> in_order [(0, False, ''hola mundo''), (0, True, ''hola mundo''), (1, False, ''hola mundo'')]"
  using utterances_in_segment_order[of demo_config demo_ticks]
  by (simp add: demo_utterances)

subsection \<open>The loop of \<^verbatim>\<open>main\<close> and the runs over classified frames\<close>

text \<open>
  Over ticks whose classification is the energy detector's, the loop of \<^verbatim>\<open>main\<close> ends in
  the state of the run. The concrete ticks above are classified as the detector does.
\<close>

lemma samples_of_uniform: "samples_of (replicate (2 * n) b) = replicate n (int16 b b)"
  by (induction n) auto

lemma uniform_energy:
  "0 < n \<Longrightarrow> rms_energy (replicate (2 * n) b) = Inr (\<bar>real_of_int (int16 b b)\<bar> / 32768)"
  by (simp add: rms_energy_def frombuffer_int16_def samples_of_uniform mean_def
      sum_list_replicate real_sqrt_divide)

lemma voiced_is_speech: "is_speech_energy voiced = Inr True"
proof -
  have v: "voiced = replicate (2 * 480) 64" by (simp add: voiced_def)
  have "rms_energy (replicate (2 * 480) 64) = Inr (\<bar>real_of_int (int16 64 64)\<bar> / 32768)"
    by (rule uniform_energy) simp
  then have "rms_energy voiced = Inr (\<bar>real_of_int (int16 64 64)\<bar> / 32768)"
    unfolding v .
  then show ?thesis
    by (simp add: is_speech_energy_def int16_def RMS_THRESH_def)
qed

lemma silent_is_silence: "is_speech_energy silent = Inr False"
  using is_speech_zero[of 480] by (simp add: silent_def)

lemma loop_frames_run:
  "\<forall>t \<in> set ts. is_speech_energy (frame t) = Inr (speaking t) \<Longrightarrow>
     loop_frames c s (map raw ts) = Inr (run_state c s ts)"
proof (induction ts arbitrary: s)
  case Nil
  show ?case by simp
next
  case (Cons t ts)
  then have IH: "loop_frames c (after c s t) (map raw ts) = Inr (run_state c (after c s t) ts)"
    by simp
  from Cons.prems have sp: "is_speech_energy (frame t) = Inr (speaking t)" by simp
  have t: "\<lparr>frame = frame t, speaking = speaking t, now = now t, took = took t\<rparr> = t"
    by simp
  have "loop_frames c s (raw t # map raw ts) = loop_frames c (after c s t) (map raw ts)"
    by (simp add: raw_def[of t] sp t)
  with IH show ?case by simp
qed

lemma demo_ticks_classified:
  "\<forall>t \<in> set demo_ticks. is_speech_energy (frame t) = Inr (speaking t)"
  by (simp add: demo_ticks_def voiced_is_speech silent_is_silence)

lemma scenario_ticks_classified:
  "\<forall>t \<in> set scenario_ticks. is_speech_energy (frame t) = Inr (speaking t)"
  by (auto simp: scenario_ticks_def scenario_tick_def voiced_is_speech silent_is_silence
      simp del: upt_rec_numeral)

end
